theory Spec2Isabelle
  imports Main "HOL-Library.Word" "HOL-Library.AList"
begin

unbundle bit_operations_syntax

section \<open>Python string primitives used by the program\<close>

text \<open>
  A Python \<open>str\<close> is modelled as a \<open>string\<close>; a \<open>char\<close> stands for the code point of
  the same number, so the model covers texts over U+0000..U+00FF. The functions below are
  the \<open>str\<close> methods the program calls, restricted to that range.
\<close>

text \<open>\<open>str.isspace\<close> on one character: the white space of \<open>strip()\<close> and \<open>split()\<close>.\<close>

definition isspace :: "char \<Rightarrow> bool" where
  "isspace c = (c \<in> {CHR 0x09, CHR 0x0A, CHR 0x0B, CHR 0x0C, CHR 0x0D, CHR 0x1C,
                      CHR 0x1D, CHR 0x1E, CHR 0x1F, CHR 0x20, CHR 0x85, CHR 0xA0})"

text \<open>\<open>s.strip()\<close> and \<open>s.strip(chars)\<close>.\<close>

definition strip :: "string \<Rightarrow> string" where
  "strip s = rev (dropWhile isspace (rev (dropWhile isspace s)))"

definition strip_chars :: "char set \<Rightarrow> string \<Rightarrow> string" where
  "strip_chars cs s = rev (dropWhile (\<lambda>c. c \<in> cs) (rev (dropWhile (\<lambda>c. c \<in> cs) s)))"

text \<open>\<open>s.lower()\<close>: A-Z and the upper-case letters of U+00C0..U+00DE move up by 32.\<close>

definition lower_char :: "char \<Rightarrow> char" where
  "lower_char c = (let n = (of_char c :: nat) in
     if (65 \<le> n \<and> n \<le> 90) \<or> (192 \<le> n \<and> n \<le> 222 \<and> n \<noteq> 215)
     then char_of (n + 32) else c)"

definition lower :: "string \<Rightarrow> string" where
  "lower s = map lower_char s"

text \<open>\<open>s.startswith(p)\<close> and \<open>sub in s\<close>.\<close>

definition startswith :: "string \<Rightarrow> string \<Rightarrow> bool" where
  "startswith s p = (take (length p) s = p)"

fun contains :: "string \<Rightarrow> string \<Rightarrow> bool" where
  "contains [] sub = (sub = [])"
| "contains (c # cs) sub = (startswith (c # cs) sub \<or> contains cs sub)"

text \<open>
  \<open>s.split(None, 1)\<close> (also written \<open>s.split(maxsplit=1)\<close>): leading white space is
  dropped, the first token is cut off, and the remainder after the following run of white
  space is the second field, kept as it is (inner and trailing white space included).
\<close>

definition split_ws1 :: "string \<Rightarrow> string list" where
  "split_ws1 s =
     (let s1 = dropWhile isspace s in
      if s1 = [] then []
      else
        let tok = takeWhile (\<lambda>c. \<not> isspace c) s1;
            rest = dropWhile isspace (dropWhile (\<lambda>c. \<not> isspace c) s1)
        in if rest = [] then [tok] else [tok, rest])"

text \<open>\<open>s.split()\<close>: all maximal runs of characters that are not white space.\<close>

fun split_ws_aux :: "string \<Rightarrow> string \<Rightarrow> string list" where
  "split_ws_aux cur [] = (if cur = [] then [] else [cur])"
| "split_ws_aux cur (c # cs) =
     (if isspace c then (if cur = [] then split_ws_aux [] cs else cur # split_ws_aux [] cs)
      else split_ws_aux (cur @ [c]) cs)"

definition split_ws :: "string \<Rightarrow> string list" where
  "split_ws s = split_ws_aux [] s"

text \<open>
  \<open>s.splitlines()\<close>: lines end at LF, CR, CR LF, VT, FF, FS, GS, RS and NEL; there is no
  empty last line after a final line end.
\<close>

definition is_linebreak :: "char \<Rightarrow> bool" where
  "is_linebreak c = (c \<in> {CHR 0x0A, CHR 0x0D, CHR 0x0B, CHR 0x0C, CHR 0x1C, CHR 0x1D,
                           CHR 0x1E, CHR 0x85})"

fun splitlines_aux :: "string \<Rightarrow> string \<Rightarrow> string list" where
  "splitlines_aux cur [] = (if cur = [] then [] else [cur])"
| "splitlines_aux cur [c] = (if is_linebreak c then [cur] else [cur @ [c]])"
| "splitlines_aux cur (c # d # cs) =
     (if c = CHR 0x0D \<and> d = CHR 0x0A then cur # splitlines_aux [] cs
      else if is_linebreak c then cur # splitlines_aux [] (d # cs)
      else splitlines_aux (cur @ [c]) (d # cs))"

definition splitlines :: "string \<Rightarrow> string list" where
  "splitlines s = splitlines_aux [] s"

text \<open>\<open>s.split('\n')\<close> and \<open>'\n'.join(lines)\<close>.\<close>

fun split_nl :: "string \<Rightarrow> string list" where
  "split_nl [] = [[]]"
| "split_nl (c # cs) =
     (if c = CHR 0x0A then [] # split_nl cs
      else (case split_nl cs of [] \<Rightarrow> [[c]] | l # ls \<Rightarrow> (c # l) # ls))"

fun join_nl :: "string list \<Rightarrow> string" where
  "join_nl [] = []"
| "join_nl [l] = l"
| "join_nl (l # ls) = l @ CHR 0x0A # join_nl ls"

text \<open>Exceptions the modelled code can raise.\<close>

datatype exn = IndexError | OSError | AttributeError | JSONDecodeError

text \<open>\<open>xs[i]\<close> for a non-negative index: IndexError out of range.\<close>

definition index :: "'a list \<Rightarrow> nat \<Rightarrow> exn + 'a" where
  "index xs i = (if i < length xs then Inr (xs ! i) else Inl IndexError)"

section \<open>SshHostEntry\<close>

text \<open>
  The dataclass \<open>SshHostEntry\<close>. The \<open>options\<close> dict is an association list with
  distinct keys in insertion order: \<open>d[k] = v\<close> is \<open>AList.update k v\<close> (an existing key
  keeps its place, a new key goes to the end) and \<open>d.get(k, default)\<close> is \<open>dict_get\<close>.
\<close>

record SshHostEntry =
  host_alias :: string
  options :: "(string \<times> string) list"

definition dict_get :: "(string \<times> string) list \<Rightarrow> string \<Rightarrow> string \<Rightarrow> string" where
  "dict_get d k dflt = (case map_of d k of None \<Rightarrow> dflt | Some v \<Rightarrow> v)"

text \<open>\<open>SshHostEntry.getDisplayLine\<close>; a Python string is true when it is not empty.\<close>

definition getDisplayLine :: "SshHostEntry \<Rightarrow> string" where
  "getDisplayLine e =
     (let host_name = dict_get (options e) ''hostname'' '''';
          user_name = dict_get (options e) ''user'' '''';
          port = dict_get (options e) ''port'' '''';
          left = host_alias e;
          right_parts1 =
            (if user_name \<noteq> [] \<and> host_name \<noteq> [] then [user_name @ ''@'' @ host_name]
             else if host_name \<noteq> [] then [host_name]
             else []);
          right_parts = (if port \<noteq> [] then right_parts1 @ ['':'' @ port] else right_parts1);
          right = (if right_parts \<noteq> [] then concat right_parts else ''(kein Hostname)'')
      in left @ ''  ('' @ right @ '')'')"

section \<open>SshConfigParser.parseFile\<close>

text \<open>
  The loop state is the list \<open>entries\<close> and \<open>current_entry\<close>. One iteration either
  finishes with the new state or raises; an exception leaves the loop with the entries
  appended so far, which is what the \<open>except\<close> clause then works with.
\<close>

type_synonym parse_state = "SshHostEntry list \<times> SshHostEntry option"

definition flush_current :: "parse_state \<Rightarrow> SshHostEntry list" where
  "flush_current st = (case snd st of None \<Rightarrow> fst st | Some e \<Rightarrow> fst st @ [e])"

definition parse_line :: "parse_state \<Rightarrow> string \<Rightarrow> (exn \<times> SshHostEntry list) + parse_state" where
  "parse_line st raw_line =
     (let line = strip raw_line in
      if line = [] \<or> startswith line ''#'' then Inr st
      else if startswith (lower line) ''host '' then
        (let entries = flush_current st in
         case index (split_ws1 line) 1 of
           Inl x \<Rightarrow> Inl (x, entries)
         | Inr rest \<Rightarrow>
             (case index (split_ws (strip rest)) 0 of
                Inl x \<Rightarrow> Inl (x, entries)
              | Inr first_token \<Rightarrow>
                  Inr (entries, Some \<lparr>host_alias = first_token, options = []\<rparr>)))
      else
        (case snd st of
           None \<Rightarrow> Inr st
         | Some cur \<Rightarrow>
             (let parts = split_ws1 line in
              if length parts \<noteq> 2 then Inr st
              else
                let key = lower (strip (parts ! 0));
                    val = strip_chars {CHR 0x22} (strip (parts ! 1))
                in Inr (fst st, Some (cur\<lparr>options := AList.update key val (options cur)\<rparr>)))))"

fun parse_lines :: "parse_state \<Rightarrow> string list \<Rightarrow> (exn \<times> SshHostEntry list) + parse_state" where
  "parse_lines st [] = Inr st"
| "parse_lines st (l # ls) =
     (case parse_line st l of Inl x \<Rightarrow> Inl x | Inr st' \<Rightarrow> parse_lines st' ls)"

text \<open>The test \<open>any(ch in entry.host_alias for ch in ["*", "?", "!"])\<close>.\<close>

definition is_wildcard :: "string \<Rightarrow> bool" where
  "is_wildcard a = (CHR ''*'' \<in> set a \<or> CHR ''?'' \<in> set a \<or> CHR ''!'' \<in> set a)"

text \<open>
  The body of \<open>parseFile\<close> from the text that \<open>read_text\<close> returned: the loop inside
  \<open>try\<close>, the final append (skipped when the loop raised), then the filter.
\<close>

definition parse_text :: "string \<Rightarrow> SshHostEntry list" where
  "parse_text text =
     (let entries = (case parse_lines ([], None) (splitlines text) of
                       Inl (x, es) \<Rightarrow> es
                     | Inr st \<Rightarrow> flush_current st)
      in filter (\<lambda>e. \<not> is_wildcard (host_alias e)) entries)"

section \<open>Paths and files\<close>

text \<open>
  A \<open>pathlib\<close> path on POSIX is its root (empty, \<open>/\<close> or, for exactly two leading
  slashes, \<open>//\<close>) and its components. Parsing a string drops empty components and \<open>.\<close>
  and keeps \<open>..\<close>; \<open>p / name\<close> appends the components of \<open>name\<close>, and an absolute
  \<open>name\<close> replaces \<open>p\<close>; \<open>parent\<close> drops the last component.
\<close>

type_synonym path = "string \<times> string list"

definition keep_part :: "string \<Rightarrow> string list" where
  "keep_part cur = (if cur = [] \<or> cur = ''.'' then [] else [cur])"

fun path_parts_aux :: "string \<Rightarrow> string \<Rightarrow> string list" where
  "path_parts_aux cur [] = keep_part cur"
| "path_parts_aux cur (c # cs) =
     (if c = CHR ''/'' then keep_part cur @ path_parts_aux [] cs
      else path_parts_aux (cur @ [c]) cs)"

definition path_parts :: "string \<Rightarrow> string list" where
  "path_parts s = path_parts_aux [] s"

definition path_root :: "string \<Rightarrow> string" where
  "path_root s =
     (if startswith s ''//'' \<and> \<not> startswith s ''///'' then ''//''
      else if startswith s ''/'' then ''/''
      else [])"

definition Path :: "string \<Rightarrow> path" where
  "Path s = (path_root s, path_parts s)"

definition path_div :: "path \<Rightarrow> string \<Rightarrow> path" where
  "path_div p name = (if startswith name ''/'' then Path name else (fst p, snd p @ path_parts name))"


text \<open>
  What the program finds at a path: nothing (no entry in the map), a regular file with its
  content, a directory it may search and write in, something that exists and cannot be read
  as text (a file without read permission, bytes that do not decode), or \<open>NoAccess\<close>:
  \<open>stat\<close> on the path fails with an error that \<open>pathlib\<close> does not take for absence,
  such as EACCES for a directory on the way that may not be searched. The content type is a
  parameter: text of the configuration and the notes is a \<open>string\<close>, text of the session
  log is a list of code points. Components \<open>..\<close> and symbolic links are resolved by the
  operating system; the map is keyed by the path as the program hands it over.
\<close>

datatype 'a node = File 'a | Dir | Unreadable | NoAccess

type_synonym 'a filesystem = "path \<rightharpoonup> 'a node"

text \<open>
  \<open>Path.exists()\<close>: false for a path that is absent, and the error of \<open>stat\<close> raised again
  when it is not one of those that mean absence.
\<close>

definition path_exists :: "'a filesystem \<Rightarrow> path \<Rightarrow> exn + bool" where
  "path_exists fs p =
     (case fs p of None \<Rightarrow> Inr False | Some NoAccess \<Rightarrow> Inl OSError | Some other \<Rightarrow> Inr True)"

definition read_text :: "'a filesystem \<Rightarrow> path \<Rightarrow> exn + 'a" where
  "read_text fs p = (case fs p of Some (File s) \<Rightarrow> Inr s | other \<Rightarrow> Inl OSError)"





section \<open>SshConfigParser.parseFile on a file\<close>

text \<open>
  \<open>parseFile\<close>: \<open>Inl\<close> is an exception reaching the caller. The test
  \<open>config_path.exists()\<close> stands before the \<open>try\<close> block, so an exception it raises is not
  caught. A failing \<open>read_text\<close> is inside the block and is caught by the \<open>except\<close>
  clause, with \<open>entries\<close> still empty; decoding uses \<open>errors="ignore"\<close> and cannot fail.
\<close>

definition parseFile :: "string filesystem \<Rightarrow> path \<Rightarrow> exn + SshHostEntry list" where
  "parseFile fs config_path =
     (case path_exists fs config_path of
        Inl x \<Rightarrow> Inl x
      | Inr found \<Rightarrow>
          if \<not> found then Inr []
          else case read_text fs config_path of
                 Inl x \<Rightarrow> Inr (filter (\<lambda>e. \<not> is_wildcard (host_alias e)) [])
               | Inr text \<Rightarrow> Inr (parse_text text))"

section \<open>ConfigMutator: the rewrite in SshGui.addKeyToConfig\<close>

text \<open>
  The loop state is \<open>new_lines\<close>, \<open>in_target_host\<close> and \<open>identity_added\<close>. Every line
  is appended first; the \<open>if\<close>/\<open>elif\<close> chain follows in the order of the source.
\<close>

type_synonym add_state = "string list \<times> bool \<times> bool"

fun add_key_step :: "string \<Rightarrow> string \<Rightarrow> add_state \<Rightarrow> string \<Rightarrow> add_state" where
  "add_key_step alias key_path (new_lines, in_target_host, identity_added) line =
     (if startswith (lower (strip line)) ''host '' \<and> contains line alias
      then (new_lines @ [line], True, identity_added)
      else if in_target_host \<and> startswith (lower (strip line)) ''host ''
      then (new_lines @ [line], False, identity_added)
      else if in_target_host \<and> \<not> identity_added \<and> strip line \<noteq> []
              \<and> \<not> startswith (strip line) ''#''
      then (new_lines @ [line] @ [''  IdentityFile '' @ key_path], in_target_host, True)
      else (new_lines @ [line], in_target_host, identity_added))"

definition add_key_loop :: "string \<Rightarrow> string \<Rightarrow> string list \<Rightarrow> add_state" where
  "add_key_loop alias key_path lines = foldl (add_key_step alias key_path) ([], False, False) lines"

text \<open>
  The contract \<open>addIdentityFile\<close>: the text between \<open>read_text\<close> and \<open>write_text\<close> of
  \<open>addKeyToConfig\<close>: the joined \<open>new_lines\<close> and the flag \<open>identity_added\<close>. The program
  writes the joined text back only when the flag is set.
\<close>

definition addIdentityFile :: "string \<Rightarrow> string \<Rightarrow> string \<Rightarrow> string \<times> bool" where
  "addIdentityFile config_content alias key_path =
     (case add_key_loop alias key_path (split_nl config_content) of
        (new_lines, in_target_host, identity_added) \<Rightarrow>
          (join_nl new_lines, identity_added))"

section \<open>MD5 (hashlib.md5) and the UTF-8 encoding of a string\<close>

definition utf8_encode :: "string \<Rightarrow> 8 word list" where
  "utf8_encode s = concat (map (\<lambda>c. let n = (of_char c :: nat) in
       if n < 128 then [of_nat n] else [of_nat (192 + n div 64), of_nat (128 + n mod 64)]) s)"

definition md5_s :: "nat list" where
  "md5_s = [7, 12, 17, 22, 7, 12, 17, 22, 7, 12, 17, 22, 7, 12, 17, 22,
            5, 9, 14, 20, 5, 9, 14, 20, 5, 9, 14, 20, 5, 9, 14, 20,
            4, 11, 16, 23, 4, 11, 16, 23, 4, 11, 16, 23, 4, 11, 16, 23,
            6, 10, 15, 21, 6, 10, 15, 21, 6, 10, 15, 21, 6, 10, 15, 21]"

definition md5_K :: "32 word list" where
  "md5_K = [0xd76aa478, 0xe8c7b756, 0x242070db, 0xc1bdceee, 0xf57c0faf, 0x4787c62a, 0xa8304613, 0xfd469501, 0x698098d8, 0x8b44f7af, 0xffff5bb1, 0x895cd7be, 0x6b901122, 0xfd987193, 0xa679438e, 0x49b40821, 0xf61e2562, 0xc040b340, 0x265e5a51, 0xe9b6c7aa, 0xd62f105d, 0x02441453, 0xd8a1e681, 0xe7d3fbc8, 0x21e1cde6, 0xc33707d6, 0xf4d50d87, 0x455a14ed, 0xa9e3e905, 0xfcefa3f8, 0x676f02d9, 0x8d2a4c8a, 0xfffa3942, 0x8771f681, 0x6d9d6122, 0xfde5380c, 0xa4beea44, 0x4bdecfa9, 0xf6bb4b60, 0xbebfbc70, 0x289b7ec6, 0xeaa127fa, 0xd4ef3085, 0x04881d05, 0xd9d4d039, 0xe6db99e5, 0x1fa27cf8, 0xc4ac5665, 0xf4292244, 0x432aff97, 0xab9423a7, 0xfc93a039, 0x655b59c3, 0x8f0ccc92, 0xffeff47d, 0x85845dd1, 0x6fa87e4f, 0xfe2ce6e0, 0xa3014314, 0x4e0811a1, 0xf7537e82, 0xbd3af235, 0x2ad7d2bb, 0xeb86d391]"

type_synonym md5_state = "32 word \<times> 32 word \<times> 32 word \<times> 32 word"

fun le_word32 :: "8 word list \<Rightarrow> 32 word" where
  "le_word32 [] = 0"
| "le_word32 (b # bs) = ucast b + push_bit 8 (le_word32 bs)"

primrec le_bytes :: "nat \<Rightarrow> nat \<Rightarrow> 8 word list" where
  "le_bytes 0 n = []"
| "le_bytes (Suc k) n = of_nat n # le_bytes k (n div 256)"

definition md5_pad :: "8 word list \<Rightarrow> 8 word list" where
  "md5_pad m = m @ [0x80] @ replicate ((119 - length m mod 64) mod 64) 0
                 @ le_bytes 8 ((8 * length m) mod 2 ^ 64)"

definition rotl32 :: "nat \<Rightarrow> 32 word \<Rightarrow> 32 word" where
  "rotl32 n w = push_bit n w OR drop_bit (32 - n) w"

definition md5_f :: "nat \<Rightarrow> 32 word \<Rightarrow> 32 word \<Rightarrow> 32 word \<Rightarrow> 32 word" where
  "md5_f i B C D =
     (if i < 16 then (B AND C) OR (NOT B AND D)
      else if i < 32 then (D AND B) OR (NOT D AND C)
      else if i < 48 then B XOR C XOR D
      else C XOR (B OR NOT D))"

definition md5_g :: "nat \<Rightarrow> nat" where
  "md5_g i =
     (if i < 16 then i
      else if i < 32 then (5 * i + 1) mod 16
      else if i < 48 then (3 * i + 5) mod 16
      else (7 * i) mod 16)"

fun md5_step :: "32 word list \<Rightarrow> md5_state \<Rightarrow> nat \<Rightarrow> md5_state" where
  "md5_step M (A, B, C, D) i =
     (D, B + rotl32 (md5_s ! i) (md5_f i B C D + A + md5_K ! i + M ! md5_g i), B, C)"

fun md5_add :: "md5_state \<Rightarrow> md5_state \<Rightarrow> md5_state" where
  "md5_add (a0, b0, c0, d0) (a, b, c, d) = (a0 + a, b0 + b, c0 + c, d0 + d)"

definition md5_block :: "md5_state \<Rightarrow> 8 word list \<Rightarrow> md5_state" where
  "md5_block st block =
     md5_add st (foldl (md5_step (map (\<lambda>j. le_word32 (take 4 (drop (4 * j) block))) [0..<16]))
                   st [0..<64])"

primrec md5_blocks :: "nat \<Rightarrow> md5_state \<Rightarrow> 8 word list \<Rightarrow> md5_state" where
  "md5_blocks 0 st bs = st"
| "md5_blocks (Suc n) st bs = md5_blocks n (md5_block st (take 64 bs)) (drop 64 bs)"

fun md5_output :: "md5_state \<Rightarrow> 8 word list" where
  "md5_output (a, b, c, d) = concat (map (\<lambda>w. le_bytes 4 (unat w)) [a, b, c, d])"

definition md5_digest :: "8 word list \<Rightarrow> 8 word list" where
  "md5_digest m =
     md5_output (md5_blocks (length (md5_pad m) div 64)
                   (0x67452301, 0xefcdab89, 0x98badcfe, 0x10325476) (md5_pad m))"

definition hex_byte :: "8 word \<Rightarrow> string" where
  "hex_byte b = [''0123456789abcdef'' ! (unat b div 16), ''0123456789abcdef'' ! (unat b mod 16)]"

definition md5_hexdigest :: "8 word list \<Rightarrow> string" where
  "md5_hexdigest m = concat (map hex_byte (md5_digest m))"

section \<open>NoteStore: fingerprint and paths\<close>

text \<open>\<open>SshGui.getHostHash\<close>: \<open>options.get("hostname", host_alias)\<close>, hashed, first 12 digits.\<close>

definition getHostHash :: "SshHostEntry \<Rightarrow> string" where
  "getHostHash entry =
     (let identifier = dict_get (options entry) ''hostname'' (host_alias entry)
      in take 12 (md5_hexdigest (utf8_encode identifier)))"

section \<open>Specification-side definitions\<close>

text \<open>An option counts for the display label only when it is present and not empty.\<close>

definition nonempty :: "string option \<Rightarrow> string option" where
  "nonempty v = (case v of Some s \<Rightarrow> (if s = [] then None else Some s) | None \<Rightarrow> None)"

text \<open>
  The text between the parentheses of the display label, by cases on which of user,
  hostname and port contribute.
\<close>

definition display_right_spec :: "string option \<Rightarrow> string option \<Rightarrow> string option \<Rightarrow> string" where
  "display_right_spec user hostname port =
     (case (nonempty user, nonempty hostname, nonempty port) of
        (Some u, Some h, None) \<Rightarrow> u @ ''@'' @ h
      | (Some u, Some h, Some p) \<Rightarrow> u @ ''@'' @ h @ '':'' @ p
      | (None, Some h, None) \<Rightarrow> h
      | (None, Some h, Some p) \<Rightarrow> h @ '':'' @ p
      | (_, None, Some p) \<Rightarrow> '':'' @ p
      | (_, None, None) \<Rightarrow> ''(kein Hostname)'')"

text \<open>
  A Host line in the words of the specification: the stripped line begins with the token
  \<open>Host\<close>, in any case, followed by a white space character.
\<close>

definition spec_host_line :: "string \<Rightarrow> bool" where
  "spec_host_line l =
     (startswith (lower (strip l)) ''host'' \<and> 4 < length (strip l) \<and> isspace (strip l ! 4))"

section \<open>Lines and blocks as the program reads them\<close>

text \<open>
  A Host line as the program tests it, in \<open>parseFile\<close> and in \<open>addKeyToConfig\<close> alike:
  \<open>Host\<close> followed by a space character. The amended statements about blocks use this
  notion. A directive line, and the block a line lies in: line \<open>i\<close> is inside a target
  block when the last Host line before it contains the alias.
\<close>

definition is_host_line :: "string \<Rightarrow> bool" where
  "is_host_line l = startswith (lower (strip l)) ''host ''"

definition is_directive_line :: "string \<Rightarrow> bool" where
  "is_directive_line l = (strip l \<noteq> [] \<and> \<not> startswith (strip l) ''#'' \<and> \<not> is_host_line l)"

definition in_target_block :: "string \<Rightarrow> string list \<Rightarrow> nat \<Rightarrow> bool" where
  "in_target_block alias ls i =
     (case filter is_host_line (rev (take i ls)) of [] \<Rightarrow> False | h # hs \<Rightarrow> contains h alias)"

definition eligible :: "string \<Rightarrow> string list \<Rightarrow> nat \<Rightarrow> bool" where
  "eligible alias ls i = (i < length ls \<and> is_directive_line (ls ! i) \<and> in_target_block alias ls i)"

text \<open>The first directive line of a target block, if there is one.\<close>

definition insertion_point :: "string \<Rightarrow> string list \<Rightarrow> nat option" where
  "insertion_point alias ls = find (eligible alias ls) [0..<length ls]"

definition identity_line :: "string \<Rightarrow> string" where
  "identity_line key_path = ''  IdentityFile '' @ key_path"

text \<open>
  One iteration of the parser loop as a state transformer, for the iterations that do not
  raise, and the second field of \<open>split(None, 1)\<close>: what follows the first run of white
  space after the first token.
\<close>

definition parse_step :: "parse_state \<Rightarrow> string \<Rightarrow> parse_state" where
  "parse_step st l = (case parse_line st l of Inr st' \<Rightarrow> st' | Inl x \<Rightarrow> st)"

definition remainder_field :: "string \<Rightarrow> string" where
  "remainder_field s =
     dropWhile isspace (dropWhile (\<lambda>c. \<not> isspace c) (dropWhile isspace s))"

section \<open>SshGui: the state the core uses\<close>

record SshGui =
  notes_dir_path :: path
  session_logs_dir_path :: path
  selected_entry :: "SshHostEntry option"

section \<open>SshGui.logSession\<close>










section \<open>JSON as the note files use it\<close>






text \<open>What \<open>json.loads\<close> can return.\<close>

datatype json = JNull | JBool bool | JNumber string | JString string
  | JArray "json list" | JObject "(string \<times> json) list"

section \<open>NoteStore: loadNotes and saveNotes\<close>

definition getNotesPath :: "SshGui \<Rightarrow> SshHostEntry \<Rightarrow> path" where
  "getNotesPath gui entry = path_div (notes_dir_path gui) (getHostHash entry @ ''.json'')"




section \<open>A decoder for note files\<close>










section \<open>Specification-side definitions for the session log\<close>




section \<open>Auxiliary facts\<close>

section \<open>Display label (C5)\<close>

text \<open>
  C5, as stated, fails: an entry without options is shown as \<open>alias  ((kein Hostname))\<close>,
  the placeholder already carrying its own parentheses inside the pair that
  \<open>getDisplayLine\<close> adds; and an option that is present but empty counts as absent, so a
  present empty user does not give \<open>@h\<close>.
\<close>

theorem getDisplayLine_counterexample:
  "getDisplayLine \<lparr>host_alias = ''alias'', options = []\<rparr> \<noteq> ''alias  (kein Hostname)''
   \<and> getDisplayLine \<lparr>host_alias = ''alias'', options = [(''user'', ''''), (''hostname'', ''h'')]\<rparr>
       \<noteq> ''alias  (@h)''"
  by (simp add: getDisplayLine_def dict_get_def)

text \<open>
  C5, amended: \<open>getDisplayLine\<close> returns the alias, two spaces and, in parentheses, the text
  \<open>right\<close>, where user, hostname and port count only when present and not empty:
  \<open>right\<close> is \<open>user@hostname\<close> if both count, else the hostname alone if it counts, with
  \<open>:port\<close> appended when the port counts; when neither hostname nor port counts,
  \<open>right\<close> is the placeholder \<open>(kein Hostname)\<close> with its own parentheses.
\<close>

theorem getDisplayLine_amended:
  "getDisplayLine e =
     host_alias e @ ''  ('' @
       display_right_spec (map_of (options e) ''user'') (map_of (options e) ''hostname'')
         (map_of (options e) ''port'') @ '')''"
  by (simp add: getDisplayLine_def display_right_spec_def nonempty_def dict_get_def
        split: option.splits)

theorem getDisplayLine_amended_witness:
  "getDisplayLine \<lparr>host_alias = ''alias'', options = [(''port'', ''2222'')]\<rparr> = ''alias  (:2222)''
   \<and> getDisplayLine \<lparr>host_alias = ''alias'', options = [(''hostname'', ''h''), (''user'', ''u'')]\<rparr>
       = ''alias  (u@h)''
   \<and> getDisplayLine \<lparr>host_alias = ''alias'', options = []\<rparr> = ''alias  ((kein Hostname))''"
  using getDisplayLine_amended [of "\<lparr>host_alias = ''alias'', options = [(''port'', ''2222'')]\<rparr>"]
        getDisplayLine_amended [of "\<lparr>host_alias = ''alias'', options = [(''hostname'', ''h''), (''user'', ''u'')]\<rparr>"]
        getDisplayLine_amended [of "\<lparr>host_alias = ''alias'', options = []\<rparr>"]
  by (simp add: display_right_spec_def nonempty_def)

subsection \<open>Evaluating MD5 on a concrete message\<close>

lemma le_bytes_numeral:
  "le_bytes (numeral k) n = of_nat n # le_bytes (pred_numeral k) (n div 256)"
proof -
  have "numeral k = Suc (pred_numeral k)" by (rule numeral_eq_Suc)
  then show ?thesis by (simp only: le_bytes.simps)
qed

lemma md5_blocks_numeral:
  "md5_blocks (numeral k) st bs =
     md5_blocks (pred_numeral k) (md5_block st (take 64 bs)) (drop 64 bs)"
proof -
  have "numeral k = Suc (pred_numeral k)" by (rule numeral_eq_Suc)
  then show ?thesis by (simp only: md5_blocks.simps)
qed

lemma replicate_numeral_Cons: "replicate (numeral k) x = x # replicate (pred_numeral k) x"
proof -
  have "numeral k = Suc (pred_numeral k)" by (rule numeral_eq_Suc)
  then show ?thesis by (simp only: replicate.simps)
qed

lemma le_bytes_1: "le_bytes 1 n = [of_nat n]"
  by simp

lemma md5_blocks_1: "md5_blocks 1 st bs = md5_block st (take 64 bs)"
  by simp

lemmas md5_eval = md5_hexdigest_def hex_byte_def md5_digest_def md5_pad_def utf8_encode_def
  md5_block_def md5_K_def md5_s_def rotl32_def md5_f_def md5_g_def upt_conv_Cons
  le_bytes_numeral md5_blocks_numeral le_bytes_1 md5_blocks_1 replicate_numeral_Cons

lemma md5_empty: "take 12 (md5_hexdigest (utf8_encode [])) = ''d41d8cd98f00''"
  by (simp add: md5_eval)

lemma md5_foo: "take 12 (md5_hexdigest (utf8_encode ''foo'')) = ''acbd18db4cc2''"
  by (simp add: md5_eval)

subsection \<open>The shape of a digest\<close>

lemma length_le_bytes: "length (le_bytes k n) = k"
  by (induction k arbitrary: n) simp_all

lemma length_md5_output: "length (md5_output st) = 16"
  by (cases st rule: md5_output.cases) (simp add: length_le_bytes)

lemma length_md5_digest: "length (md5_digest m) = 16"
  by (simp add: md5_digest_def length_md5_output)

lemma length_concat_hex_byte: "length (concat (map hex_byte bs)) = 2 * length bs"
  by (induction bs) (simp_all add: hex_byte_def)

lemma length_md5_hexdigest: "length (md5_hexdigest m) = 32"
  by (simp add: md5_hexdigest_def length_concat_hex_byte length_md5_digest)

lemma set_hex_byte: "set (hex_byte b) \<subseteq> set ''0123456789abcdef''"
proof -
  define H where "H = ''0123456789abcdef''"
  have len: "length H = 16" by (simp add: H_def)
  have "unat b < 256" using unsigned_less [of b] by simp
  then have "unat b div 16 < length H" by (simp add: len)
  then have hi: "H ! (unat b div 16) \<in> set H" by (rule nth_mem)
  have "unat b mod 16 < length H" by (simp add: len)
  then have lo: "H ! (unat b mod 16) \<in> set H" by (rule nth_mem)
  have "hex_byte b = [H ! (unat b div 16), H ! (unat b mod 16)]"
    by (simp only: hex_byte_def H_def)
  then have "set (hex_byte b) \<subseteq> set H" using hi lo by simp
  then show ?thesis by (simp only: H_def)
qed

lemma set_md5_hexdigest: "set (md5_hexdigest m) \<subseteq> set ''0123456789abcdef''"
proof -
  define H where "H = set ''0123456789abcdef''"
  have "set (hex_byte b) \<subseteq> H" for b unfolding H_def by (rule set_hex_byte)
  then have "set (concat (map hex_byte bs)) \<subseteq> H" for bs by auto
  then show ?thesis unfolding md5_hexdigest_def H_def .
qed

section \<open>Fingerprint (C3)\<close>

text \<open>
  C3, as stated, fails where the hostname option is present and empty: the code hashes the
  empty string, not the alias. For the alias \<open>foo\<close> the fingerprint is that of the empty
  string, \<open>d41d8cd98f00\<close>, and not \<open>acbd18db4cc2\<close>.
\<close>

theorem getHostHash_counterexample:
  "map_of (options \<lparr>host_alias = ''foo'', options = [(''hostname'', '''')]\<rparr>) ''hostname'' = Some ''''
   \<and> getHostHash \<lparr>host_alias = ''foo'', options = [(''hostname'', '''')]\<rparr>
       \<noteq> take 12 (md5_hexdigest (utf8_encode (host_alias
             \<lparr>host_alias = ''foo'', options = [(''hostname'', '''')]\<rparr>)))"
  by (simp add: getHostHash_def dict_get_def md5_empty md5_foo)

text \<open>
  C3, amended: the fingerprint is a string of 12 lower-case hexadecimal digits, the first 12
  of the MD5 digest of the UTF-8 bytes of the hostname option whenever that option is
  present (empty or not), and of the alias when it is absent; two entries with the same
  hostname value get the same fingerprint.
\<close>

theorem getHostHash_amended:
  "length (getHostHash e) = 12
   \<and> set (getHostHash e) \<subseteq> set ''0123456789abcdef''
   \<and> getHostHash e =
       take 12 (md5_hexdigest (utf8_encode
         (case map_of (options e) ''hostname'' of Some h \<Rightarrow> h | None \<Rightarrow> host_alias e)))
   \<and> (map_of (options e) ''hostname'' = Some h \<and> map_of (options e') ''hostname'' = Some h
        \<longrightarrow> getHostHash e = getHostHash e')"
proof -
  have "length (getHostHash e) = 12"
    by (simp add: getHostHash_def length_md5_hexdigest)
  moreover have "set (getHostHash e) \<subseteq> set ''0123456789abcdef''"
    unfolding getHostHash_def Let_def
    using set_take_subset set_md5_hexdigest by (rule subset_trans)
  moreover have "getHostHash e =
       take 12 (md5_hexdigest (utf8_encode
         (case map_of (options e) ''hostname'' of Some h \<Rightarrow> h | None \<Rightarrow> host_alias e)))"
    by (simp add: getHostHash_def dict_get_def split: option.splits)
  moreover have "map_of (options e) ''hostname'' = Some h \<and> map_of (options e') ''hostname'' = Some h
        \<longrightarrow> getHostHash e = getHostHash e'"
    by (simp add: getHostHash_def dict_get_def)
  ultimately show ?thesis by blast
qed

theorem getHostHash_amended_witness:
  "length (getHostHash \<lparr>host_alias = ''web'', options = [(''hostname'', ''example.com'')]\<rparr>) = 12
   \<and> getHostHash \<lparr>host_alias = ''web'', options = [(''hostname'', ''example.com'')]\<rparr>
       = getHostHash \<lparr>host_alias = ''backup'', options = [(''user'', ''bob''), (''hostname'', ''example.com'')]\<rparr>"
proof -
  have h: "map_of (options \<lparr>host_alias = ''web'', options = [(''hostname'', ''example.com'')]\<rparr>)
             ''hostname'' = Some ''example.com''
           \<and> map_of (options \<lparr>host_alias = ''backup'',
                 options = [(''user'', ''bob''), (''hostname'', ''example.com'')]\<rparr>)
             ''hostname'' = Some ''example.com''"
    by simp
  from getHostHash_amended [of "\<lparr>host_alias = ''web'', options = [(''hostname'', ''example.com'')]\<rparr>"
          "''example.com''"
          "\<lparr>host_alias = ''backup'', options = [(''user'', ''bob''), (''hostname'', ''example.com'')]\<rparr>"]
       h
  show ?thesis by blast
qed

subsection \<open>Splitting and joining lines\<close>

lemma split_nl_not_Nil: "split_nl t \<noteq> []"
  by (induction t) (auto split: list.splits)

lemma join_nl_Cons: "ls \<noteq> [] \<Longrightarrow> join_nl (l # ls) = l @ CHR 0x0A # join_nl ls"
  by (cases ls) simp_all

lemma join_split_nl: "join_nl (split_nl t) = t"
proof (induction t)
  case Nil
  show ?case by simp
next
  case (Cons c cs)
  obtain l ls where s: "split_nl cs = l # ls"
    using split_nl_not_Nil [of cs] by (cases "split_nl cs") auto
  show ?case
  proof (cases "c = CHR 0x0A")
    case True
    then show ?thesis using Cons.IH split_nl_not_Nil [of cs] by (simp add: join_nl_Cons)
  next
    case False
    have "join_nl ((c # l) # ls) = c # join_nl (l # ls)"
      by (cases ls) simp_all
    then show ?thesis using False Cons.IH s by simp
  qed
qed

subsection \<open>The loop of addKeyToConfig\<close>

lemma add_key_after: "\<exists>t'. foldl (add_key_step a p) (acc, t, True) ls = (acc @ ls, t', True)"
proof (induction ls arbitrary: acc t)
  case Nil
  show ?case by simp
next
  case (Cons l ls)
  have "\<exists>t1. add_key_step a p (acc, t, True) l = (acc @ [l], t1, True)"
    by auto
  then obtain t1 where "add_key_step a p (acc, t, True) l = (acc @ [l], t1, True)" ..
  then show ?case using Cons.IH [of "acc @ [l]" t1] by simp
qed

lemma in_target_block_snoc:
  "in_target_block a (ls @ [l]) (Suc (length ls)) =
     (if is_host_line l then contains l a else in_target_block a ls (length ls))"
  by (simp add: in_target_block_def)

lemma eligible_prefix: "i < length ls \<Longrightarrow> eligible a (ls @ ms) i = eligible a ls i"
  by (simp add: eligible_def in_target_block_def nth_append)

lemma add_key_none:
  "\<forall>i < length ls. \<not> eligible a ls i \<Longrightarrow>
     add_key_loop a p ls = (ls, in_target_block a ls (length ls), False)"
proof (induction ls rule: rev_induct)
  case Nil
  show ?case by (simp add: add_key_loop_def in_target_block_def)
next
  case (snoc l ls)
  have "\<forall>i < length ls. \<not> eligible a ls i"
    using snoc.prems eligible_prefix [of _ ls a "[l]"] by auto
  then have ih: "add_key_loop a p ls = (ls, in_target_block a ls (length ls), False)"
    by (rule snoc.IH)
  have last: "\<not> eligible a (ls @ [l]) (length ls)"
    using snoc.prems by simp
  have tb: "in_target_block a (ls @ [l]) (length ls) = in_target_block a ls (length ls)"
    by (simp add: in_target_block_def)
  from last tb have nd: "\<not> (is_directive_line l \<and> in_target_block a ls (length ls))"
    by (simp add: eligible_def)
  have "add_key_loop a p (ls @ [l]) =
          add_key_step a p (ls, in_target_block a ls (length ls), False) l"
    using ih by (simp add: add_key_loop_def)
  also have "\<dots> = (ls @ [l], in_target_block a (ls @ [l]) (Suc (length ls)), False)"
    using nd by (auto simp: in_target_block_snoc is_directive_line_def is_host_line_def)
  finally show ?case by simp
qed

lemma add_key_first:
  assumes el: "eligible a ls i" and first: "\<forall>j < i. \<not> eligible a ls j"
  shows "\<exists>t. add_key_loop a p ls =
           (take (Suc i) ls @ [identity_line p] @ drop (Suc i) ls, t, True)"
proof -
  from el have i: "i < length ls" by (simp add: eligible_def)
  have split: "ls = take i ls @ ls ! i # drop (Suc i) ls"
    using i by (simp add: id_take_nth_drop)
  have "\<forall>j < length (take i ls). \<not> eligible a (take i ls) j"
  proof (intro allI impI)
    fix j assume "j < length (take i ls)"
    then have j: "j < i" by simp
    have "eligible a (take i ls @ drop i ls) j = eligible a (take i ls) j"
      using j i by (intro eligible_prefix) simp
    then show "\<not> eligible a (take i ls) j" using first j by simp
  qed
  then have pre: "add_key_loop a p (take i ls) =
      (take i ls, in_target_block a (take i ls) (length (take i ls)), False)"
    by (rule add_key_none)
  have "in_target_block a (take i ls) (length (take i ls)) = in_target_block a ls i"
    using i by (simp add: in_target_block_def min_def)
  with el have tb: "in_target_block a (take i ls) (length (take i ls))"
    by (simp add: eligible_def)
  from el have dir: "is_directive_line (ls ! i)" by (simp add: eligible_def)
  have step: "add_key_step a p (take i ls, True, False) (ls ! i) =
      (take i ls @ [ls ! i] @ [identity_line p], True, True)"
    using dir by (simp add: is_directive_line_def is_host_line_def identity_line_def)
  obtain t where rest: "foldl (add_key_step a p)
      (take i ls @ [ls ! i] @ [identity_line p], True, True) (drop (Suc i) ls) =
      ((take i ls @ [ls ! i] @ [identity_line p]) @ drop (Suc i) ls, t, True)"
    using add_key_after by blast
  have "add_key_loop a p ls =
      foldl (add_key_step a p) (add_key_step a p (add_key_loop a p (take i ls)) (ls ! i))
        (drop (Suc i) ls)"
    by (subst split) (simp add: add_key_loop_def)
  also have "\<dots> = ((take i ls @ [ls ! i] @ [identity_line p]) @ drop (Suc i) ls, t, True)"
    using pre tb step rest by simp
  finally have "add_key_loop a p ls =
      ((take i ls @ [ls ! i]) @ [identity_line p] @ drop (Suc i) ls, t, True)"
    by simp
  moreover have "take i ls @ [ls ! i] = take (Suc i) ls"
    using i by (simp add: take_Suc_conv_app_nth)
  ultimately show ?thesis by auto
qed

lemma insertion_point_None: "insertion_point a ls = None \<longleftrightarrow> (\<forall>i < length ls. \<not> eligible a ls i)"
  by (auto simp: insertion_point_def find_None_iff)

lemma insertion_point_Some:
  "insertion_point a ls = Some i \<longleftrightarrow> (eligible a ls i \<and> (\<forall>j < i. \<not> eligible a ls j))"
  by (auto simp: insertion_point_def find_Some_iff eligible_def)

lemma last_match_index:
  "filter P (rev xs) = h # hs \<Longrightarrow>
     \<exists>j < length xs. xs ! j = h \<and> P h \<and> (\<forall>k. j < k \<and> k < length xs \<longrightarrow> \<not> P (xs ! k))"
proof (induction xs rule: rev_induct)
  case Nil
  then show ?case by simp
next
  case (snoc x xs)
  show ?case
  proof (cases "P x")
    case True
    with snoc.prems have "h = x" by simp
    with True show ?thesis
      by (intro exI [of _ "length xs"]) auto
  next
    case False
    with snoc.prems have "filter P (rev xs) = h # hs" by simp
    then obtain j where j: "j < length xs" "xs ! j = h" "P h"
      "\<forall>k. j < k \<and> k < length xs \<longrightarrow> \<not> P (xs ! k)"
      using snoc.IH by blast
    have "\<forall>k. j < k \<and> k < length (xs @ [x]) \<longrightarrow> \<not> P ((xs @ [x]) ! k)"
    proof (intro allI impI)
      fix k assume k: "j < k \<and> k < length (xs @ [x])"
      show "\<not> P ((xs @ [x]) ! k)"
      proof (cases "k < length xs")
        case True
        then show ?thesis using j(4) k by (simp add: nth_append)
      next
        case False
        with k have "k = length xs" by simp
        then show ?thesis using \<open>\<not> P x\<close> by simp
      qed
    qed
    with j show ?thesis
      by (intro exI [of _ j]) (simp add: nth_append)
  qed
qed

lemma in_target_block_host:
  assumes "in_target_block a ls i" and "i \<le> length ls"
  shows "\<exists>j < i. is_host_line (ls ! j) \<and> contains (ls ! j) a
            \<and> (\<forall>k. j < k \<and> k < i \<longrightarrow> \<not> is_host_line (ls ! k))"
proof -
  from assms(1) obtain h hs where f: "filter is_host_line (rev (take i ls)) = h # hs"
    and c: "contains h a"
    by (auto simp: in_target_block_def split: list.splits)
  from last_match_index [OF f] obtain j where j: "j < length (take i ls)" "take i ls ! j = h"
    "is_host_line h" "\<forall>k. j < k \<and> k < length (take i ls) \<longrightarrow> \<not> is_host_line (take i ls ! k)"
    by blast
  from j(1) assms(2) have ji: "j < i" by simp
  have "\<forall>k. j < k \<and> k < i \<longrightarrow> \<not> is_host_line (ls ! k)"
    using j(4) assms(2) by (auto simp: min_def)
  moreover have "ls ! j = h" using j(2) ji by simp
  ultimately show ?thesis using ji j(3) c by blast
qed

section \<open>ConfigMutator (C4, C10)\<close>

text \<open>
  C4, as stated, fails where a Host line has a tab after \<open>Host\<close>: the program does not
  take it for a Host line. Below, the target block \<open>Host foo\<close> ends at once, at the line
  \<open>Host bar\<close> written with a tab, and has no directive line; yet the program treats that
  line as the first directive of the block, inserts after it and returns the flag true.
\<close>

theorem addIdentityFile_tab_counterexample:
  "spec_host_line (''Host'' @ CHR 0x09 # ''bar'')
   \<and> addIdentityFile (''Host foo\<newline>Host'' @ CHR 0x09 # ''bar\<newline> User u'') ''foo'' ''k''
       = (''Host foo\<newline>Host'' @ CHR 0x09 # ''bar\<newline>  IdentityFile k\<newline> User u'', True)"
  by code_simp

text \<open>
  C4, amended: a Host line is a line whose stripped content begins with \<open>Host\<close>, in any
  case, followed by a space character, and a target block is a block whose Host line
  contains the alias. Let \<open>i\<close> be the first line of the text that is not blank, not a
  comment and not a Host line and that lies in a target block, that is, the last Host line
  before it (line \<open>j\<close>) contains the alias. Then \<open>addIdentityFile\<close> returns the text with
  the one line \<open>  IdentityFile key_path\<close> inserted right after line \<open>i\<close>, every other line
  unchanged and in order, and the flag true. If no target block has such a line, the text
  comes back as it was and the flag is false. Either way at most one line is inserted.
\<close>

theorem addIdentityFile_first_directive:
  "(insertion_point target_alias (split_nl config_content) = Some i \<longrightarrow>
      addIdentityFile config_content target_alias key_path =
        (join_nl (take (Suc i) (split_nl config_content) @ [identity_line key_path]
                  @ drop (Suc i) (split_nl config_content)), True)
      \<and> i < length (split_nl config_content) \<and> is_directive_line (split_nl config_content ! i)
      \<and> (\<exists>j < i. is_host_line (split_nl config_content ! j) \<and> contains (split_nl config_content ! j) target_alias
            \<and> (\<forall>k. j < k \<and> k < i \<longrightarrow> \<not> is_host_line (split_nl config_content ! k))))
   \<and> (insertion_point target_alias (split_nl config_content) = None \<longrightarrow>
        addIdentityFile config_content target_alias key_path = (config_content, False))"
proof (intro conjI impI)
  assume "insertion_point target_alias (split_nl config_content) = None"
  then have "\<forall>i < length (split_nl config_content). \<not> eligible target_alias (split_nl config_content) i"
    by (simp add: insertion_point_None)
  then have "add_key_loop target_alias key_path (split_nl config_content) =
      (split_nl config_content, in_target_block target_alias (split_nl config_content) (length (split_nl config_content)), False)"
    by (rule add_key_none)
  then show "addIdentityFile config_content target_alias key_path = (config_content, False)"
    by (simp add: addIdentityFile_def join_split_nl)
next
  assume "insertion_point target_alias (split_nl config_content) = Some i"
  then have el: "eligible target_alias (split_nl config_content) i"
    and first: "\<forall>j < i. \<not> eligible target_alias (split_nl config_content) j"
    by (simp_all add: insertion_point_Some)
  obtain t where "add_key_loop target_alias key_path (split_nl config_content) =
      (take (Suc i) (split_nl config_content) @ [identity_line key_path] @ drop (Suc i) (split_nl config_content),
       t, True)"
    using add_key_first [OF el first, of key_path] by blast
  then show "addIdentityFile config_content target_alias key_path =
        (join_nl (take (Suc i) (split_nl config_content) @ [identity_line key_path]
                  @ drop (Suc i) (split_nl config_content)), True)"
    by (simp add: addIdentityFile_def)
  from el show "i < length (split_nl config_content)" by (simp add: eligible_def)
  from el show "is_directive_line (split_nl config_content ! i)" by (simp add: eligible_def)
  from el have "in_target_block target_alias (split_nl config_content) i" "i \<le> length (split_nl config_content)"
    by (simp_all add: eligible_def)
  then show "\<exists>j < i. is_host_line (split_nl config_content ! j) \<and> contains (split_nl config_content ! j) target_alias
            \<and> (\<forall>k. j < k \<and> k < i \<longrightarrow> \<not> is_host_line (split_nl config_content ! k))"
    by (rule in_target_block_host)
qed

theorem addIdentityFile_first_directive_witness:
  "addIdentityFile ''Host foo\<newline>  HostName h\<newline>Host bar\<newline>  User u'' ''foo'' ''~/.ssh/id_rsa''
     = (''Host foo\<newline>  HostName h\<newline>  IdentityFile ~/.ssh/id_rsa\<newline>Host bar\<newline>  User u'', True)
   \<and> addIdentityFile ''Host foo\<newline># no directive\<newline>Host bar\<newline>  User u'' ''foo'' ''~/.ssh/id_rsa''
     = (''Host foo\<newline># no directive\<newline>Host bar\<newline>  User u'', False)"
proof -
  have a: "insertion_point ''foo'' (split_nl ''Host foo\<newline>  HostName h\<newline>Host bar\<newline>  User u'') = Some 1"
    by code_simp
  have b: "insertion_point ''foo'' (split_nl ''Host foo\<newline># no directive\<newline>Host bar\<newline>  User u'') = None"
    by code_simp
  have c: "join_nl (take (Suc 1) (split_nl ''Host foo\<newline>  HostName h\<newline>Host bar\<newline>  User u'')
             @ [identity_line ''~/.ssh/id_rsa'']
             @ drop (Suc 1) (split_nl ''Host foo\<newline>  HostName h\<newline>Host bar\<newline>  User u''))
           = ''Host foo\<newline>  HostName h\<newline>  IdentityFile ~/.ssh/id_rsa\<newline>Host bar\<newline>  User u''"
    by code_simp
  from addIdentityFile_first_directive [where target_alias = "''foo''" and config_content = "''Host foo\<newline>  HostName h\<newline>Host bar\<newline>  User u''"
            and i = 1 and key_path = "''~/.ssh/id_rsa''"]
       a c
  have first: "addIdentityFile ''Host foo\<newline>  HostName h\<newline>Host bar\<newline>  User u'' ''foo'' ''~/.ssh/id_rsa''
     = (''Host foo\<newline>  HostName h\<newline>  IdentityFile ~/.ssh/id_rsa\<newline>Host bar\<newline>  User u'', True)"
    by (simp only: simp_thms)
  from addIdentityFile_first_directive [where target_alias = "''foo''" and config_content = "''Host foo\<newline># no directive\<newline>Host bar\<newline>  User u''"
            and i = 1 and key_path = "''~/.ssh/id_rsa''"]
       b
  have "addIdentityFile ''Host foo\<newline># no directive\<newline>Host bar\<newline>  User u'' ''foo'' ''~/.ssh/id_rsa''
     = (''Host foo\<newline># no directive\<newline>Host bar\<newline>  User u'', False)"
    by (simp only: simp_thms)
  with first show ?thesis by (rule conjI)
qed

text \<open>
  C10: whatever the alias matches, the returned text is the input itself when the flag is
  false, and the input with exactly one line inserted between two of its lines (or after
  the last) when the flag is true; the lines of the input all stay, unchanged and in order.
\<close>

theorem addIdentityFile_frame:
  "(case addIdentityFile config_content target_alias key_path of
      (new_text, inserted) \<Rightarrow>
        if inserted
        then \<exists>i < length (split_nl config_content).
               new_text = join_nl (take (Suc i) (split_nl config_content) @ [identity_line key_path]
                                    @ drop (Suc i) (split_nl config_content))
        else new_text = config_content)"
proof (cases "insertion_point target_alias (split_nl config_content)")
  case None
  then have "\<forall>i < length (split_nl config_content). \<not> eligible target_alias (split_nl config_content) i"
    by (simp add: insertion_point_None)
  then have "add_key_loop target_alias key_path (split_nl config_content) =
      (split_nl config_content, in_target_block target_alias (split_nl config_content) (length (split_nl config_content)), False)"
    by (rule add_key_none)
  then show ?thesis by (simp add: addIdentityFile_def join_split_nl)
next
  case (Some i)
  then have el: "eligible target_alias (split_nl config_content) i"
    and first: "\<forall>j < i. \<not> eligible target_alias (split_nl config_content) j"
    by (simp_all add: insertion_point_Some)
  from el have i: "i < length (split_nl config_content)" by (simp add: eligible_def)
  obtain t where "add_key_loop target_alias key_path (split_nl config_content) =
      (take (Suc i) (split_nl config_content) @ [identity_line key_path] @ drop (Suc i) (split_nl config_content),
       t, True)"
    using add_key_first [OF el first, of key_path] by blast
  then show ?thesis using i by (auto simp: addIdentityFile_def)
qed

theorem addIdentityFile_frame_witness:
  "snd (addIdentityFile ''Host web\<newline>  User u\<newline>'' ''web'' ''key'')
   \<and> (\<exists>i < length (split_nl ''Host web\<newline>  User u\<newline>'').
        fst (addIdentityFile ''Host web\<newline>  User u\<newline>'' ''web'' ''key'') =
          join_nl (take (Suc i) (split_nl ''Host web\<newline>  User u\<newline>'') @ [identity_line ''key'']
                   @ drop (Suc i) (split_nl ''Host web\<newline>  User u\<newline>'')))
   \<and> addIdentityFile ''Host web\<newline>  User u\<newline>'' ''other'' ''key''
       = (''Host web\<newline>  User u\<newline>'', False)"
proof -
  have a: "snd (addIdentityFile ''Host web\<newline>  User u\<newline>'' ''web'' ''key'') = True"
    by code_simp
  have b: "snd (addIdentityFile ''Host web\<newline>  User u\<newline>'' ''other'' ''key'') = False"
    by code_simp
  from addIdentityFile_frame [where config_content = "''Host web\<newline>  User u\<newline>''" and target_alias = "''web''"
         and key_path = "''key''"] a
  have first: "\<exists>i < length (split_nl ''Host web\<newline>  User u\<newline>'').
        fst (addIdentityFile ''Host web\<newline>  User u\<newline>'' ''web'' ''key'') =
          join_nl (take (Suc i) (split_nl ''Host web\<newline>  User u\<newline>'') @ [identity_line ''key'']
                   @ drop (Suc i) (split_nl ''Host web\<newline>  User u\<newline>''))"
    by (cases "addIdentityFile ''Host web\<newline>  User u\<newline>'' ''web'' ''key''") (simp del: split_nl.simps)
  from addIdentityFile_frame [where config_content = "''Host web\<newline>  User u\<newline>''" and target_alias = "''other''"
         and key_path = "''key''"] b
  have "addIdentityFile ''Host web\<newline>  User u\<newline>'' ''other'' ''key''
       = (''Host web\<newline>  User u\<newline>'', False)"
    by (cases "addIdentityFile ''Host web\<newline>  User u\<newline>'' ''other'' ''key''") simp
  with a first show ?thesis by simp
qed

subsection \<open>White space, strip and lower\<close>

lemma isspace_lower_char: "isspace c \<Longrightarrow> lower_char c = c"
  by (auto simp: isspace_def lower_char_def)

lemma lower_char_space: "lower_char c = CHR '' '' \<Longrightarrow> c = CHR '' ''"
proof (rule ccontr)
  assume eq: "lower_char c = CHR '' ''" and ne: "c \<noteq> CHR '' ''"
  define n where "n = (of_char c :: nat)"
  from eq ne have up: "(65 \<le> n \<and> n \<le> 90) \<or> (192 \<le> n \<and> n \<le> 222 \<and> n \<noteq> 215)"
    and ch: "char_of (n + 32) = CHR '' ''"
    by (auto simp: lower_char_def n_def Let_def split: if_splits)
  from up have "n + 32 < 256" by auto
  then have "(of_char (char_of (n + 32) :: char) :: nat) = n + 32"
    by (simp add: of_char_of)
  with ch have "n + 32 = 32" by simp
  with up show False by auto
qed

lemma lower_char_not_space: "\<not> isspace (lower_char c) \<Longrightarrow> \<not> isspace c"
  using isspace_lower_char by fastforce

lemma strip_Nil_iff: "strip s = [] \<longleftrightarrow> (\<forall>c \<in> set s. isspace c)"
proof -
  have "(\<forall>x \<in> set (dropWhile isspace s). isspace x) \<longleftrightarrow> dropWhile isspace s = []"
  proof
    assume all: "\<forall>x \<in> set (dropWhile isspace s). isspace x"
    show "dropWhile isspace s = []"
    proof (rule ccontr)
      assume ne: "dropWhile isspace s \<noteq> []"
      then have "\<not> isspace (hd (dropWhile isspace s))" by (rule hd_dropWhile)
      moreover have "hd (dropWhile isspace s) \<in> set (dropWhile isspace s)"
        using ne by (rule hd_in_set)
      ultimately show False using all by blast
    qed
  next
    assume e: "dropWhile isspace s = []"
    show "\<forall>x \<in> set (dropWhile isspace s). isspace x" unfolding e by simp
  qed
  moreover have "strip s = [] \<longleftrightarrow> (\<forall>x \<in> set (dropWhile isspace s). isspace x)"
    by (simp add: strip_def dropWhile_eq_Nil_conv)
  moreover have "dropWhile isspace s = [] \<longleftrightarrow> (\<forall>c \<in> set s. isspace c)"
    by (simp add: dropWhile_eq_Nil_conv)
  ultimately show ?thesis by blast
qed

lemma hd_strip: "strip s \<noteq> [] \<Longrightarrow> \<not> isspace (hd (strip s))"
proof -
  assume ne: "strip s \<noteq> []"
  define t where "t = dropWhile isspace s"
  have st: "strip s = rev (dropWhile isspace (rev t))" by (simp add: strip_def t_def)
  from ne st have tne: "t \<noteq> []" by auto
  then have h: "\<not> isspace (hd t)" unfolding t_def by (rule hd_dropWhile)
  obtain a u where t: "t = a # u" using tne by (cases t) auto
  with h have a: "\<not> isspace a" by simp
  have "dropWhile isspace (rev u @ [a]) = dropWhile isspace (rev u) @ [a] \<or>
        dropWhile isspace (rev u @ [a]) = [a]"
    using a by (simp add: dropWhile_append)
  then have "hd (rev (dropWhile isspace (rev t))) = a"
    unfolding t by (auto simp: hd_append)
  with st a show ?thesis by simp
qed

lemma last_strip: "strip s \<noteq> [] \<Longrightarrow> \<not> isspace (last (strip s))"
proof -
  assume ne: "strip s \<noteq> []"
  then have "dropWhile isspace (rev (dropWhile isspace s)) \<noteq> []"
    by (simp add: strip_def)
  then have "\<not> isspace (hd (dropWhile isspace (rev (dropWhile isspace s))))"
    by (rule hd_dropWhile)
  then show ?thesis using ne by (simp add: strip_def last_rev)
qed

subsection \<open>split() and split(None, 1)\<close>

lemma split_ws_aux_skip: "split_ws_aux [] s = split_ws_aux [] (dropWhile isspace s)"
  by (induction s) auto

lemma split_ws_aux_token:
  "cur @ takeWhile (\<lambda>c. \<not> isspace c) s \<noteq> [] \<Longrightarrow>
     split_ws_aux cur s =
       (cur @ takeWhile (\<lambda>c. \<not> isspace c) s) # split_ws_aux [] (dropWhile (\<lambda>c. \<not> isspace c) s)"
  by (induction s arbitrary: cur) auto

lemma split_ws_unfold:
  "split_ws s =
     (if dropWhile isspace s = [] then []
      else takeWhile (\<lambda>c. \<not> isspace c) (dropWhile isspace s)
             # split_ws (dropWhile (\<lambda>c. \<not> isspace c) (dropWhile isspace s)))"
proof (cases "dropWhile isspace s = []")
  case True
  then show ?thesis using split_ws_aux_skip [of s]
    by (simp add: split_ws_def del: dropWhile_eq_Nil_conv)
next
  case False
  then have "\<not> isspace (hd (dropWhile isspace s))" by (rule hd_dropWhile)
  with False have "[] @ takeWhile (\<lambda>c. \<not> isspace c) (dropWhile isspace s) \<noteq> []"
    by (cases "dropWhile isspace s") auto
  from split_ws_aux_token [OF this] False show ?thesis
    using split_ws_aux_skip [of s] by (simp add: split_ws_def del: dropWhile_eq_Nil_conv)
qed

lemma split_ws_Nil_iff: "split_ws s = [] \<longleftrightarrow> dropWhile isspace s = []"
  by (subst split_ws_unfold) (simp del: dropWhile_eq_Nil_conv)

lemma hd_split_ws:
  "dropWhile isspace s \<noteq> [] \<Longrightarrow>
     hd (split_ws s) = takeWhile (\<lambda>c. \<not> isspace c) (dropWhile isspace s)"
  by (subst split_ws_unfold) (simp del: dropWhile_eq_Nil_conv)

lemma split_ws_dropWhile: "split_ws (dropWhile isspace s) = split_ws s"
  using split_ws_aux_skip [of s] by (simp add: split_ws_def)

lemma split_ws_aux_spaces:
  "\<forall>c \<in> set sp. isspace c \<Longrightarrow> split_ws_aux cur sp = (if cur = [] then [] else [cur])"
  by (induction sp arbitrary: cur) auto

lemma split_ws_aux_trailing:
  "\<forall>c \<in> set sp. isspace c \<Longrightarrow> split_ws_aux cur (s @ sp) = split_ws_aux cur s"
  by (induction s arbitrary: cur) (auto simp: split_ws_aux_spaces)

lemma split_ws_strip: "split_ws (strip s) = split_ws s"
proof -
  define t where "t = dropWhile isspace s"
  define sp where "sp = rev (takeWhile isspace (rev t))"
  have sp: "\<forall>c \<in> set sp. isspace c"
    by (auto simp: sp_def dest: set_takeWhileD)
  have "rev (takeWhile isspace (rev t) @ dropWhile isspace (rev t)) = t"
    by simp
  then have t: "strip s @ sp = t"
    by (simp add: strip_def sp_def t_def del: takeWhile_dropWhile_id)
  have "split_ws (strip s) = split_ws_aux [] (strip s @ sp)"
    using split_ws_aux_trailing [OF sp] by (simp add: split_ws_def)
  also have "\<dots> = split_ws t" by (simp add: t split_ws_def)
  also have "\<dots> = split_ws s" by (simp add: t_def split_ws_dropWhile)
  finally show ?thesis .
qed

lemma split_ws1_split_ws:
  "split_ws1 s =
     (case split_ws s of [] \<Rightarrow> [] | [t] \<Rightarrow> [t] | t # u # us \<Rightarrow> [t, remainder_field s])"
proof (cases "dropWhile isspace s = []")
  case True
  moreover from True have "split_ws s = []" by (simp only: split_ws_Nil_iff)
  ultimately show ?thesis by (simp add: split_ws1_def del: dropWhile_eq_Nil_conv)
next
  case False
  define r where "r = dropWhile (\<lambda>c. \<not> isspace c) (dropWhile isspace s)"
  have s: "split_ws s = takeWhile (\<lambda>c. \<not> isspace c) (dropWhile isspace s) # split_ws r"
    using False by (subst split_ws_unfold) (simp add: r_def del: dropWhile_eq_Nil_conv)
  show ?thesis
  proof (cases "dropWhile isspace r = []")
    case True
    then have "split_ws r = []" by (simp only: split_ws_Nil_iff)
    with s False True show ?thesis
      by (simp add: split_ws1_def r_def Let_def del: dropWhile_eq_Nil_conv)
  next
    case nonempty: False
    then have "split_ws r \<noteq> []" by (simp only: split_ws_Nil_iff not_False_eq_True)
    then obtain u us where "split_ws r = u # us" by (cases "split_ws r") auto
    with s False nonempty show ?thesis
      by (simp add: split_ws1_def r_def Let_def remainder_field_def del: dropWhile_eq_Nil_conv)
  qed
qed

subsection \<open>One iteration of the parser loop\<close>

lemma host_line_shape:
  assumes "startswith (lower (strip l)) ''host ''"
  shows "\<exists>a b c d rest. strip l = a # b # c # d # CHR '' '' # rest
           \<and> \<not> isspace a \<and> \<not> isspace b \<and> \<not> isspace c \<and> \<not> isspace d
           \<and> a \<noteq> CHR ''#'' \<and> dropWhile isspace rest \<noteq> []"
proof -
  from assms have "take (length ''host '') (map lower_char (strip l)) = ''host ''"
    unfolding startswith_def lower_def .
  then have "map lower_char (strip l) =
      ''host '' @ drop (length ''host '') (map lower_char (strip l))"
    by (metis append_take_drop_id)
  then obtain a b c d e rest where line: "strip l = a # b # c # d # e # rest"
    and low: "lower_char a = CHR ''h''" "lower_char b = CHR ''o''" "lower_char c = CHR ''s''"
      "lower_char d = CHR ''t''" "lower_char e = CHR '' ''"
    by (auto simp: map_eq_Cons_conv)
  from low(5) have e: "e = CHR '' ''" by (rule lower_char_space)
  have "\<not> isspace (lower_char a)" "\<not> isspace (lower_char b)"
    "\<not> isspace (lower_char c)" "\<not> isspace (lower_char d)"
    by (simp_all add: low isspace_def)
  then have ns: "\<not> isspace a" "\<not> isspace b" "\<not> isspace c" "\<not> isspace d"
    by (blast dest: lower_char_not_space)+
  have "\<not> isspace (last (strip l))" using line by (intro last_strip) simp
  with line e have "rest \<noteq> [] \<and> \<not> isspace (last rest)"
    by (auto simp: isspace_def split: if_splits)
  then have "\<exists>x \<in> set rest. \<not> isspace x"
    using last_in_set by blast
  then have "dropWhile isspace rest \<noteq> []" by (simp add: dropWhile_eq_Nil_conv)
  moreover have "a \<noteq> CHR ''#''"
  proof
    assume "a = CHR ''#''"
    then have "lower_char a = CHR ''#''" by (simp add: lower_char_def)
    with low(1) show False by simp
  qed
  ultimately show ?thesis using line e ns by blast
qed

lemma parse_line_host:
  assumes "startswith (lower (strip l)) ''host ''"
  shows "parse_line st l =
           Inr (flush_current st,
                Some \<lparr>host_alias = hd (split_ws (drop 5 (strip l))), options = []\<rparr>)"
    and "split_ws (drop 5 (strip l)) \<noteq> []"
proof -
  from host_line_shape [OF assms] obtain a b c d rest where
    line: "strip l = a # b # c # d # CHR '' '' # rest"
    and ns: "\<not> isspace a" "\<not> isspace b" "\<not> isspace c" "\<not> isspace d"
    and hash: "a \<noteq> CHR ''#''"
    and rest: "dropWhile isspace rest \<noteq> []"
    by blast
  have sp: "isspace CHR '' ''" by (simp add: isspace_def)
  have s1: "split_ws1 (a # b # c # d # CHR '' '' # rest) = [[a, b, c, d], dropWhile isspace rest]"
    using ns sp rest by (simp add: split_ws1_def del: dropWhile_eq_Nil_conv)
  then have s1: "split_ws1 (strip l) = [[a, b, c, d], dropWhile isspace rest]"
    by (simp only: line)
  have "split_ws (strip (dropWhile isspace rest)) = split_ws rest"
    by (simp add: split_ws_strip split_ws_dropWhile)
  moreover have ne: "split_ws rest \<noteq> []"
    using rest by (simp only: split_ws_Nil_iff not_False_eq_True)
  ultimately have i0: "index (split_ws (strip (dropWhile isspace rest))) 0 = Inr (hd (split_ws rest))"
    by (simp add: index_def hd_conv_nth)
  have nb: "\<not> (strip l = [] \<or> startswith (strip l) ''#'')"
    using hash by (simp add: line startswith_def)
  have i1: "index (split_ws1 (strip l)) 1 = Inr (dropWhile isspace rest)"
    by (simp only: s1 index_def) simp
  have d5: "drop 5 (strip l) = rest" by (simp only: line) simp
  have "parse_line st l =
      Inr (flush_current st, Some \<lparr>host_alias = hd (split_ws rest), options = []\<rparr>)"
    unfolding parse_line_def Let_def
    by (simp only: nb assms i1 i0 if_True if_False sum.case)
  then show "parse_line st l =
           Inr (flush_current st,
                Some \<lparr>host_alias = hd (split_ws (drop 5 (strip l))), options = []\<rparr>)"
    by (simp only: d5)
  show "split_ws (drop 5 (strip l)) \<noteq> []" using ne unfolding d5 .
qed

lemma parse_line_skip:
  "strip l = [] \<or> startswith (strip l) ''#'' \<Longrightarrow> parse_line st l = Inr st"
  by (auto simp: parse_line_def)

lemma strip_token: "\<forall>x \<in> set t. \<not> isspace x \<Longrightarrow> strip t = t"
proof (cases t rule: rev_cases)
  case Nil
  then show ?thesis by (simp add: strip_def)
next
  case (snoc u x)
  assume ns: "\<forall>x \<in> set t. \<not> isspace x"
  then have "dropWhile isspace t = t" by (cases t) auto
  moreover have "dropWhile isspace (rev t) = rev t" using ns snoc by simp
  ultimately show ?thesis by (simp add: strip_def)
qed

lemma strip_hd_split_ws: "split_ws s \<noteq> [] \<Longrightarrow> strip (hd (split_ws s)) = hd (split_ws s)"
proof -
  assume "split_ws s \<noteq> []"
  then have ne: "dropWhile isspace s \<noteq> []"
    by (simp only: split_ws_Nil_iff not_False_eq_True)
  have "\<forall>x \<in> set (takeWhile (\<lambda>c. \<not> isspace c) (dropWhile isspace s)). \<not> isspace x"
    by (auto dest: set_takeWhileD)
  then show ?thesis unfolding hd_split_ws [OF ne] by (rule strip_token)
qed

lemma parse_line_directive:
  assumes "strip l \<noteq> []" "\<not> startswith (strip l) ''#''" "\<not> startswith (lower (strip l)) ''host ''"
  shows "parse_line (es, cur) l =
     Inr (es, case cur of None \<Rightarrow> None
              | Some c \<Rightarrow>
                  if length (split_ws (strip l)) < 2 then Some c
                  else Some (c\<lparr>options :=
                         AList.update (lower (hd (split_ws (strip l))))
                           (strip_chars {CHR 0x22} (strip (remainder_field (strip l))))
                           (options c)\<rparr>))"
proof -
  have cond: "\<not> (strip l = [] \<or> startswith (strip l) ''#'')" using assms by simp
  have start: "parse_line (es, cur) l =
      (case cur of
           None \<Rightarrow> Inr (es, cur)
         | Some c \<Rightarrow>
             (if length (split_ws1 (strip l)) \<noteq> 2 then Inr (es, cur)
              else Inr (es, Some (c\<lparr>options :=
                     AList.update (lower (strip (split_ws1 (strip l) ! 0)))
                       (strip_chars {CHR 0x22} (strip (split_ws1 (strip l) ! 1)))
                       (options c)\<rparr>))))"
    unfolding parse_line_def Let_def
    by (simp only: cond assms(3) if_False snd_conv fst_conv)
  show ?thesis
  proof (cases cur)
    case None
    then show ?thesis unfolding start by simp
  next
    case (Some c)
    show ?thesis
    proof (cases "split_ws (strip l)")
      case Nil
      then have "split_ws1 (strip l) = []" by (simp add: split_ws1_split_ws)
      with Nil Some show ?thesis unfolding start by simp
    next
      case (Cons t ts)
      then have t: "strip t = t" using strip_hd_split_ws [of "strip l"] by simp
      show ?thesis
      proof (cases ts)
        case Nil
        with Cons have "split_ws1 (strip l) = [t]" by (simp add: split_ws1_split_ws)
        with Nil Cons Some show ?thesis unfolding start by simp
      next
        case (Cons u us)
        with \<open>split_ws (strip l) = t # ts\<close>
        have "split_ws1 (strip l) = [t, remainder_field (strip l)]"
          by (simp add: split_ws1_split_ws)
        with Cons \<open>split_ws (strip l) = t # ts\<close> Some t show ?thesis
          unfolding start by simp
      qed
    qed
  qed
qed

lemma parse_line_total: "parse_line st l = Inr (parse_step st l)"
proof -
  consider "strip l = [] \<or> startswith (strip l) ''#''"
    | "startswith (lower (strip l)) ''host ''"
    | "strip l \<noteq> []" "\<not> startswith (strip l) ''#''" "\<not> startswith (lower (strip l)) ''host ''"
    by blast
  then show ?thesis
  proof cases
    case 1
    then show ?thesis by (simp add: parse_step_def parse_line_skip)
  next
    case 2
    then show ?thesis by (simp add: parse_step_def parse_line_host(1))
  next
    case 3
    then show ?thesis
      by (cases st) (simp add: parse_step_def parse_line_directive)
  qed
qed

lemma parse_lines_foldl: "parse_lines st ls = Inr (foldl parse_step st ls)"
  by (induction ls arbitrary: st) (simp_all add: parse_line_total)

section \<open>Host lines (C6)\<close>

text \<open>
  C6, as stated, fails for white space other than the space character: the program tests
  \<open>startswith("host ")\<close>, so \<open>Host\<close> followed by a tab does not start a block. Such a line
  is taken as a directive with the key \<open>host\<close> and stored in the entry in progress.
\<close>

theorem host_line_tab_counterexample:
  "startswith (lower (strip (''Host'' @ CHR 0x09 # ''web''))) ''host''
   \<and> isspace (strip (''Host'' @ CHR 0x09 # ''web'') ! 4)
   \<and> parse_line ([], Some \<lparr>host_alias = ''old'', options = []\<rparr>) (''Host'' @ CHR 0x09 # ''web'')
       = Inr ([], Some \<lparr>host_alias = ''old'', options = [(''host'', ''web'')]\<rparr>)"
  by code_simp

text \<open>
  C6, amended: a line whose stripped content begins with the case-insensitive token
  \<open>Host\<close> followed by a space character (U+0020) starts a new block: the entry in
  progress, if any, is appended to the entries first, and the new entry in progress has the
  first white-space-separated token after \<open>Host\<close> as its alias and no options; there
  always is such a token, and further patterns on the line are dropped.
\<close>

theorem parse_line_host_line:
  "startswith (lower (strip l)) ''host '' \<Longrightarrow>
     parse_line (entries, current_entry) l =
       Inr ((case current_entry of None \<Rightarrow> entries | Some e \<Rightarrow> entries @ [e]),
            Some \<lparr>host_alias = hd (split_ws (drop 5 (strip l))), options = []\<rparr>)
     \<and> split_ws (drop 5 (strip l)) \<noteq> []"
  using parse_line_host(1) [of l "(entries, current_entry)"] parse_line_host(2) [of l]
  by (simp add: flush_current_def split: option.splits)

theorem parse_line_host_line_witness:
  "parse_line ([], Some \<lparr>host_alias = ''old'', options = [(''user'', ''u'')]\<rparr>)
       ''  HOST web1 web2 *.example.com''
     = Inr ([\<lparr>host_alias = ''old'', options = [(''user'', ''u'')]\<rparr>],
            Some \<lparr>host_alias = ''web1'', options = []\<rparr>)"
proof -
  have h: "startswith (lower (strip ''  HOST web1 web2 *.example.com'')) ''host ''"
    by code_simp
  have t: "hd (split_ws (drop 5 (strip ''  HOST web1 web2 *.example.com''))) = ''web1''"
    by code_simp
  from parse_line_host_line [OF h, of "[]" "Some \<lparr>host_alias = ''old'', options = [(''user'', ''u'')]\<rparr>"]
  show ?thesis unfolding t by simp
qed

section \<open>Directive lines (C2)\<close>

text \<open>
  C2, as stated, fails for a line with more than two white-space-separated fields: the
  program splits once, \<open>split(None, 1)\<close>, so such a line is not skipped; everything after
  the first run of white space is the value.
\<close>

theorem directive_three_fields_counterexample:
  "length (split_ws ''LocalForward 8080 localhost:80'') \<noteq> 2
   \<and> parse_line ([], Some \<lparr>host_alias = ''a'', options = []\<rparr>) ''LocalForward 8080 localhost:80''
       = Inr ([], Some \<lparr>host_alias = ''a'', options = [(''localforward'', ''8080 localhost:80'')]\<rparr>)"
  by code_simp

text \<open>
  C2, amended: a directive line inside a block (not blank, not a comment, not a Host line)
  is split once, at its first run of white space, into a key and the remainder of the line.
  A line with a single field is skipped and leaves the options unchanged. Otherwise the key
  is lower-cased, the value is the remainder with surrounding white space and then all
  leading and trailing double quotes removed, and the pair is stored in the options of the
  entry in progress, replacing any earlier value of that key and leaving the other keys as
  they were. The list of finished entries is not touched.
\<close>

theorem parse_line_directive_line:
  assumes "strip l \<noteq> []"
    and "\<not> startswith (strip l) ''#''"
    and "\<not> startswith (lower (strip l)) ''host ''"
  shows "parse_line (entries, Some cur) l =
     Inr (entries,
          Some (if length (split_ws (strip l)) < 2 then cur
                else cur\<lparr>options :=
                       AList.update (lower (hd (split_ws (strip l))))
                         (strip_chars {CHR 0x22} (strip (remainder_field (strip l))))
                         (options cur)\<rparr>))
     \<and> map_of (AList.update (lower (hd (split_ws (strip l))))
                 (strip_chars {CHR 0x22} (strip (remainder_field (strip l)))) (options cur))
         = (map_of (options cur))
             (lower (hd (split_ws (strip l))) \<mapsto>
                strip_chars {CHR 0x22} (strip (remainder_field (strip l))))"
  using parse_line_directive [OF assms, of entries "Some cur"]
  by (simp add: update_conv')

theorem parse_line_directive_line_witness:
  "parse_line ([], Some \<lparr>host_alias = ''a'', options = [(''port'', ''22''), (''user'', ''u'')]\<rparr>)
       (''  Port   '' @ CHR 0x22 # ''2222'' @ CHR 0x22 # ''  '')
     = Inr ([], Some \<lparr>host_alias = ''a'', options = [(''port'', ''2222''), (''user'', ''u'')]\<rparr>)
   \<and> parse_line ([], Some \<lparr>host_alias = ''a'', options = [(''port'', ''22'')]\<rparr>) ''Compression''
     = Inr ([], Some \<lparr>host_alias = ''a'', options = [(''port'', ''22'')]\<rparr>)"
proof -
  have a: "strip (''  Port   '' @ CHR 0x22 # ''2222'' @ CHR 0x22 # ''  '') \<noteq> []"
    "\<not> startswith (strip (''  Port   '' @ CHR 0x22 # ''2222'' @ CHR 0x22 # ''  '')) ''#''"
    "\<not> startswith (lower (strip (''  Port   '' @ CHR 0x22 # ''2222'' @ CHR 0x22 # ''  ''))) ''host ''"
    by code_simp+
  have b: "strip ''Compression'' \<noteq> []" "\<not> startswith (strip ''Compression'') ''#''"
    "\<not> startswith (lower (strip ''Compression'')) ''host ''"
    by code_simp+
  have c: "(if length (split_ws (strip (''  Port   '' @ CHR 0x22 # ''2222'' @ CHR 0x22 # ''  ''))) < 2
            then \<lparr>host_alias = ''a'', options = [(''port'', ''22''), (''user'', ''u'')]\<rparr>
            else \<lparr>host_alias = ''a'', options = [(''port'', ''22''), (''user'', ''u'')]\<rparr>
                  \<lparr>options := AList.update
                     (lower (hd (split_ws (strip (''  Port   '' @ CHR 0x22 # ''2222'' @ CHR 0x22 # ''  '')))))
                     (strip_chars {CHR 0x22}
                        (strip (remainder_field (strip (''  Port   '' @ CHR 0x22 # ''2222'' @ CHR 0x22 # ''  '')))))
                     (options \<lparr>host_alias = ''a'', options = [(''port'', ''22''), (''user'', ''u'')]\<rparr>)\<rparr>)
        = \<lparr>host_alias = ''a'', options = [(''port'', ''2222''), (''user'', ''u'')]\<rparr>"
    by code_simp
  have d: "length (split_ws (strip ''Compression'')) < 2"
    by code_simp
  from parse_line_directive_line [OF a, of "[]" "\<lparr>host_alias = ''a'', options = [(''port'', ''22''), (''user'', ''u'')]\<rparr>"]
  have first: "parse_line ([], Some \<lparr>host_alias = ''a'', options = [(''port'', ''22''), (''user'', ''u'')]\<rparr>)
       (''  Port   '' @ CHR 0x22 # ''2222'' @ CHR 0x22 # ''  '')
     = Inr ([], Some \<lparr>host_alias = ''a'', options = [(''port'', ''2222''), (''user'', ''u'')]\<rparr>)"
    unfolding c by (rule conjunct1)
  from parse_line_directive_line [OF b, of "[]" "\<lparr>host_alias = ''a'', options = [(''port'', ''22'')]\<rparr>"] d
  have "parse_line ([], Some \<lparr>host_alias = ''a'', options = [(''port'', ''22'')]\<rparr>) ''Compression''
     = Inr ([], Some \<lparr>host_alias = ''a'', options = [(''port'', ''22'')]\<rparr>)"
    by (simp only: if_True)
  with first show ?thesis by (rule conjI)
qed

subsection \<open>The parser loop as a fold\<close>

lemma parse_step_skip:
  "strip l = [] \<or> startswith (strip l) ''#'' \<Longrightarrow> parse_step st l = st"
  by (simp add: parse_step_def parse_line_skip)

lemma parse_step_host:
  "is_host_line l \<Longrightarrow>
     parse_step st l =
       (flush_current st, Some \<lparr>host_alias = hd (split_ws (drop 5 (strip l))), options = []\<rparr>)"
  by (simp add: parse_step_def parse_line_host(1) is_host_line_def)

lemma parse_step_other:
  assumes "\<not> is_host_line l"
  shows "\<exists>f. \<forall>es c. parse_step (es, None) l = (es, None)
           \<and> parse_step (es, Some c) l = (es, Some (c\<lparr>options := f (options c)\<rparr>))"
proof (cases "strip l = [] \<or> startswith (strip l) ''#''")
  case True
  then have "\<forall>es c. parse_step (es, None) l = (es, None)
           \<and> parse_step (es, Some c) l = (es, Some (c\<lparr>options := id (options c)\<rparr>))"
    by (simp add: parse_step_skip)
  then show ?thesis by blast
next
  case False
  then have d: "strip l \<noteq> []" "\<not> startswith (strip l) ''#''"
    "\<not> startswith (lower (strip l)) ''host ''"
    using assms by (simp_all add: is_host_line_def)
  define f where "f = (\<lambda>opts. if length (split_ws (strip l)) < 2 then opts
      else AList.update (lower (hd (split_ws (strip l))))
             (strip_chars {CHR 0x22} (strip (remainder_field (strip l)))) opts)"
  have "\<forall>es c. parse_step (es, None) l = (es, None)
           \<and> parse_step (es, Some c) l = (es, Some (c\<lparr>options := f (options c)\<rparr>))"
    by (simp add: parse_step_def parse_line_directive [OF d] f_def)
  then show ?thesis by blast
qed

lemma flush_current_shift: "flush_current (E @ es, c) = E @ flush_current (es, c)"
  by (simp add: flush_current_def split: option.splits)

lemma parse_step_shift:
  "parse_step (E @ es, c) l = (E @ fst (parse_step (es, c) l), snd (parse_step (es, c) l))"
proof (cases "is_host_line l")
  case True
  then show ?thesis by (simp add: parse_step_host flush_current_shift)
next
  case False
  from parse_step_other [OF this] obtain f where
    f: "\<And>es c. parse_step (es, None) l = (es, None)"
       "\<And>es c. parse_step (es, Some c) l = (es, Some (c\<lparr>options := f (options c)\<rparr>))"
    by blast
  show ?thesis by (cases c) (simp_all add: f)
qed

lemma foldl_parse_step_shift:
  "foldl parse_step (E @ es, c) ls =
     (E @ fst (foldl parse_step (es, c) ls), snd (foldl parse_step (es, c) ls))"
proof (induction ls arbitrary: es c)
  case Nil
  show ?case by simp
next
  case (Cons l ls)
  obtain es' c' where s: "parse_step (es, c) l = (es', c')" by (cases "parse_step (es, c) l")
  then have "parse_step (E @ es, c) l = (E @ es', c')"
    using parse_step_shift [of E es c l] by simp
  with s Cons.IH [of es' c'] show ?case by simp
qed

lemma foldl_parse_step_body:
  "\<forall>l \<in> set body. \<not> is_host_line l \<Longrightarrow>
     \<exists>c'. foldl parse_step (es, Some c) body = (es, Some c') \<and> host_alias c' = host_alias c"
proof (induction body arbitrary: c)
  case Nil
  show ?case by simp
next
  case (Cons l body)
  then have "\<not> is_host_line l" by simp
  from parse_step_other [OF this] obtain f where
    "parse_step (es, Some c) l = (es, Some (c\<lparr>options := f (options c)\<rparr>))"
    by blast
  moreover from Cons have "\<exists>c'. foldl parse_step (es, Some (c\<lparr>options := f (options c)\<rparr>)) body
      = (es, Some c') \<and> host_alias c' = host_alias (c\<lparr>options := f (options c)\<rparr>)"
    by (intro Cons.IH) simp
  ultimately show ?case by auto
qed

lemma parse_text_foldl:
  "parse_text t =
     filter (\<lambda>e. \<not> is_wildcard (host_alias e))
       (flush_current (foldl parse_step ([], None) (splitlines t)))"
  by (simp add: parse_text_def parse_lines_foldl)

lemma wildcard_block_dropped:
  assumes h: "is_host_line h"
    and w: "is_wildcard (hd (split_ws (drop 5 (strip h))))"
    and body: "\<forall>l \<in> set body. \<not> is_host_line l"
    and post: "post = [] \<or> is_host_line (hd post)"
  shows "filter (\<lambda>e. \<not> is_wildcard (host_alias e))
           (flush_current (foldl parse_step ([], None) (pre @ h # body @ post)))
       = filter (\<lambda>e. \<not> is_wildcard (host_alias e))
           (flush_current (foldl parse_step ([], None) (pre @ post)))"
proof -
  define S where "S = foldl parse_step ([], None) pre"
  define F where "F = flush_current S"
  define A where "A = hd (split_ws (drop 5 (strip h)))"
  have "parse_step S h = (F, Some \<lparr>host_alias = A, options = []\<rparr>)"
    using h by (simp add: parse_step_host F_def A_def)
  moreover obtain c where c: "foldl parse_step (F, Some \<lparr>host_alias = A, options = []\<rparr>) body
      = (F, Some c)" "host_alias c = A"
    using foldl_parse_step_body [OF body, of F "\<lparr>host_alias = A, options = []\<rparr>"] by auto
  ultimately have left: "foldl parse_step ([], None) (pre @ h # body @ post)
      = foldl parse_step (F, Some c) post"
    by (simp add: S_def)
  have right: "foldl parse_step ([], None) (pre @ post) = foldl parse_step S post"
    by (simp add: S_def)
  have wc: "is_wildcard (host_alias c)" using w c(2) by (simp add: A_def)
  from post show ?thesis
  proof
    assume "post = []"
    then show ?thesis unfolding left right
      using wc by (simp add: flush_current_def F_def)
  next
    assume hp: "is_host_line (hd post)"
    show ?thesis
    proof (cases post)
      case Nil
      then show ?thesis unfolding left right
        using wc by (simp add: flush_current_def F_def)
    next
      case (Cons h2 rest)
      with hp have h2: "is_host_line h2" by simp
      define n where "n = \<lparr>host_alias = hd (split_ws (drop 5 (strip h2))), options = []\<rparr>"
      define R where "R = foldl parse_step ([], Some n) rest"
      have l1: "parse_step (F, Some c) h2 = ((F @ [c]) @ [], Some n)"
        using h2 by (simp add: parse_step_host flush_current_def n_def)
      have r1: "parse_step S h2 = (F @ [], Some n)"
        using h2 by (simp add: parse_step_host F_def n_def)
      have l2: "foldl parse_step (F, Some c) post = ((F @ [c]) @ fst R, snd R)"
        unfolding Cons foldl_Cons l1 R_def by (rule foldl_parse_step_shift)
      have r2: "foldl parse_step S post = (F @ fst R, snd R)"
        unfolding Cons foldl_Cons r1 R_def by (rule foldl_parse_step_shift)
      show ?thesis unfolding left right l2 r2
        using wc by (simp add: flush_current_def split: option.splits)
    qed
  qed
qed

section \<open>Wildcard blocks (C1)\<close>

text \<open>
  C1, as stated, fails for a wildcard block whose Host line has a tab after \<open>Host\<close>: the
  program does not take that line for a Host line, so it and the directives of its block
  are stored in the entry before it. Below, the \<open>User root\<close> of the block \<open>Host *\<close>
  ends up in the entry \<open>a\<close>.
\<close>

theorem wildcard_tab_block_counterexample:
  "spec_host_line (''Host'' @ CHR 0x09 # ''*'')
   \<and> is_wildcard (hd (split_ws (drop 4 (strip (''Host'' @ CHR 0x09 # ''*'')))))
   \<and> parse_text (''Host a\<newline>  User x\<newline>Host'' @ CHR 0x09 # ''*\<newline>  User root'')
       = [\<lparr>host_alias = ''a'', options = [(''user'', ''root''), (''host'', ''*'')]\<rparr>]"
  by code_simp

text \<open>
  C1, amended: no entry returned by the parser has an alias containing \<open>*\<close>, \<open>?\<close> or
  \<open>!\<close>; and, with a Host line being a line whose stripped content begins with \<open>Host\<close>,
  in any case, followed by a space character, a whole wildcard block (its Host line and the
  lines up to the next Host line or the end of the text) can be taken out of the text
  without changing the result, so none of its directive lines reaches an entry before or
  after it.
\<close>

theorem parse_text_wildcard_blocks:
  "(\<forall>e \<in> set (parse_text t).
      CHR ''*'' \<notin> set (host_alias e) \<and> CHR ''?'' \<notin> set (host_alias e)
      \<and> CHR ''!'' \<notin> set (host_alias e))
   \<and> (splitlines t = pre @ h # body @ post \<and> splitlines t' = pre @ post
        \<and> is_host_line h \<and> is_wildcard (hd (split_ws (drop 5 (strip h))))
        \<and> (\<forall>l \<in> set body. \<not> is_host_line l) \<and> (post = [] \<or> is_host_line (hd post))
        \<longrightarrow> parse_text t = parse_text t')"
proof (intro conjI impI)
  show "\<forall>e \<in> set (parse_text t).
      CHR ''*'' \<notin> set (host_alias e) \<and> CHR ''?'' \<notin> set (host_alias e)
      \<and> CHR ''!'' \<notin> set (host_alias e)"
    by (auto simp: parse_text_foldl is_wildcard_def)
next
  assume a: "splitlines t = pre @ h # body @ post \<and> splitlines t' = pre @ post
        \<and> is_host_line h \<and> is_wildcard (hd (split_ws (drop 5 (strip h))))
        \<and> (\<forall>l \<in> set body. \<not> is_host_line l) \<and> (post = [] \<or> is_host_line (hd post))"
  then have "filter (\<lambda>e. \<not> is_wildcard (host_alias e))
           (flush_current (foldl parse_step ([], None) (pre @ h # body @ post)))
       = filter (\<lambda>e. \<not> is_wildcard (host_alias e))
           (flush_current (foldl parse_step ([], None) (pre @ post)))"
    by (intro wildcard_block_dropped) simp_all
  with a show "parse_text t = parse_text t'"
    by (simp add: parse_text_foldl)
qed

theorem parse_text_wildcard_blocks_witness:
  "parse_text ''Host a\<newline>  User x\<newline>Host *.lan !b\<newline>  User y\<newline>  Port 2\<newline>Host c\<newline>  Port 1''
     = parse_text ''Host a\<newline>  User x\<newline>Host c\<newline>  Port 1''
   \<and> parse_text ''Host a\<newline>  User x\<newline>Host c\<newline>  Port 1''
     = [\<lparr>host_alias = ''a'', options = [(''user'', ''x'')]\<rparr>,
        \<lparr>host_alias = ''c'', options = [(''port'', ''1'')]\<rparr>]"
proof -
  have a: "splitlines ''Host a\<newline>  User x\<newline>Host *.lan !b\<newline>  User y\<newline>  Port 2\<newline>Host c\<newline>  Port 1''
             = [''Host a'', ''  User x''] @ ''Host *.lan !b'' # [''  User y'', ''  Port 2'']
                 @ [''Host c'', ''  Port 1'']"
    by code_simp
  have b: "splitlines ''Host a\<newline>  User x\<newline>Host c\<newline>  Port 1''
             = [''Host a'', ''  User x''] @ [''Host c'', ''  Port 1'']"
    by code_simp
  have c: "is_host_line ''Host *.lan !b''"
    "is_wildcard (hd (split_ws (drop 5 (strip ''Host *.lan !b''))))"
    "\<forall>l \<in> set [''  User y'', ''  Port 2'']. \<not> is_host_line l"
    "[''Host c'', ''  Port 1''] = [] \<or> is_host_line (hd [''Host c'', ''  Port 1''])"
    by code_simp+
  have d: "parse_text ''Host a\<newline>  User x\<newline>Host c\<newline>  Port 1''
     = [\<lparr>host_alias = ''a'', options = [(''user'', ''x'')]\<rparr>,
        \<lparr>host_alias = ''c'', options = [(''port'', ''1'')]\<rparr>]"
    by code_simp
  from parse_text_wildcard_blocks
         [where t = "''Host a\<newline>  User x\<newline>Host *.lan !b\<newline>  User y\<newline>  Port 2\<newline>Host c\<newline>  Port 1''"
            and t' = "''Host a\<newline>  User x\<newline>Host c\<newline>  Port 1''"
            and pre = "[''Host a'', ''  User x'']" and h = "''Host *.lan !b''"
            and body = "[''  User y'', ''  Port 2'']" and post = "[''Host c'', ''  Port 1'']"]
       a b c
  have "parse_text ''Host a\<newline>  User x\<newline>Host *.lan !b\<newline>  User y\<newline>  Port 2\<newline>Host c\<newline>  Port 1''
     = parse_text ''Host a\<newline>  User x\<newline>Host c\<newline>  Port 1''"
    by blast
  from this d show ?thesis by (rule conjI)
qed

section \<open>parseFile and exceptions (C7)\<close>

text \<open>
  What holds of \<open>parseFile\<close>: the loop over the lines never raises, whatever the lines are
  (empty, comments, malformed directives); a missing file gives the empty list; a file that
  exists and cannot be read gives the empty list, the error being caught; and whenever
  \<open>exists()\<close> returns, \<open>parseFile\<close> returns a list.
\<close>

lemma parse_lines_never_raises: "\<exists>st'. parse_lines st ls = Inr st'"
  by (simp add: parse_lines_foldl)

lemma parseFile_missing: "fs config_path = None \<Longrightarrow> parseFile fs config_path = Inr []"
  by (simp add: parseFile_def path_exists_def)

lemma parseFile_read_error_caught:
  "fs config_path = Some Dir \<or> fs config_path = Some Unreadable \<Longrightarrow>
     parseFile fs config_path = Inr []"
  by (auto simp: parseFile_def path_exists_def read_text_def)

lemma parseFile_returns:
  "fs config_path \<noteq> Some NoAccess \<Longrightarrow> \<exists>entries. parseFile fs config_path = Inr entries"
  by (cases "fs config_path")
     (auto simp: parseFile_def path_exists_def split: node.splits sum.splits)

text \<open>
  C7 says that \<open>parseFile\<close> never raises and that an unreadable file yields the empty
  list. The code does not do this for a path on which \<open>stat\<close> fails, for example with
  EACCES because \<open>~/.ssh/config\<close> is a symbolic link into a directory that may not be
  searched: \<open>config_path.exists()\<close> raises the error again, and it stands before the
  \<open>try\<close> block, so the exception reaches the caller. The same kind of error from
  \<open>read_text\<close>, inside the block, is caught and gives the empty list.
\<close>

theorem parseFile_stat_error_raises:
  "parseFile (Map.empty((''/'', [''home'', ''u'', ''.ssh'', ''config'']) \<mapsto> NoAccess))
     (''/'', [''home'', ''u'', ''.ssh'', ''config'']) = Inl OSError
   \<and> parseFile (Map.empty((''/'', [''home'', ''u'', ''.ssh'', ''config'']) \<mapsto> Unreadable))
     (''/'', [''home'', ''u'', ''.ssh'', ''config'']) = Inr []"
  by (simp add: parseFile_def path_exists_def read_text_def)

subsection \<open>Appending to a file\<close>




subsection \<open>Lines of the session log\<close>







section \<open>Session log (C9)\<close>




subsection \<open>Reading back an encoded string\<close>





subsection \<open>Reading back an encoded record\<close>








subsection \<open>The path of a note file\<close>

lemma getHostHash_no_slash: "CHR ''/'' \<notin> set (getHostHash e)"
proof -
  have "set (getHostHash e) \<subseteq> set (md5_hexdigest (utf8_encode
          (dict_get (options e) ''hostname'' (host_alias e))))"
    unfolding getHostHash_def Let_def by (rule set_take_subset)
  also have "\<dots> \<subseteq> set ''0123456789abcdef''" by (rule set_md5_hexdigest)
  finally show ?thesis by auto
qed

lemma path_parts_aux_no_slash:
  "CHR ''/'' \<notin> set cs \<Longrightarrow> path_parts_aux cur cs = keep_part (cur @ cs)"
  by (induction cs arbitrary: cur) auto

lemma path_parts_single:
  "CHR ''/'' \<notin> set n \<Longrightarrow> n \<noteq> [] \<Longrightarrow> n \<noteq> ''.'' \<Longrightarrow> path_parts n = [n]"
  by (simp add: path_parts_def path_parts_aux_no_slash keep_part_def)

lemma getNotesPath_eq:
  "getNotesPath gui e
     = (fst (notes_dir_path gui), snd (notes_dir_path gui) @ [getHostHash e @ ''.json''])"
proof -
  have ns: "CHR ''/'' \<notin> set (getHostHash e @ ''.json'')"
    using getHostHash_no_slash [of e] by simp
  then have "\<not> startswith (getHostHash e @ ''.json'') ''/''"
    by (cases "getHostHash e") (auto simp: startswith_def)
  moreover have "path_parts (getHostHash e @ ''.json'') = [getHostHash e @ ''.json'']"
    using ns by (intro path_parts_single) (auto simp: append_eq_Cons_conv)
  ultimately show ?thesis by (simp add: getNotesPath_def path_div_def)
qed


lemma getNotesPath_not_dir: "getNotesPath gui e \<noteq> notes_dir_path gui"
proof
  assume "getNotesPath gui e = notes_dir_path gui"
  then have "snd (getNotesPath gui e) = snd (notes_dir_path gui)" by simp
  then show False by (simp add: getNotesPath_eq)
qed


subsection \<open>loadNotes and saveNotes\<close>







section \<open>Notes round trip (C8)\<close>




end
